theory Spec2Isabelle
  imports Main
begin

section \<open>Weak keys of the optimizer's logical properties (pkg/sql/opt/props/weak\_keys.go)\<close>

subsection \<open>Column sets\<close>

text \<open>
  \<^verbatim>\<open>opt.ColSet\<close> is declared outside the file under verification. It is a set of
  column identifiers (integers) with a subset test; its zero value is the empty set.
\<close>

type_synonym ColSet = "int set"

definition SubsetOf :: "ColSet \<Rightarrow> ColSet \<Rightarrow> bool" where
  \<comment> \<open>Modelled from the spec: \<^verbatim>\<open>ColSet.SubsetOf\<close> is not part of weak\_keys.go; the
      spec gives it as the subset-of predicate of the column-set primitive.\<close>
  "SubsetOf a b = (a \<subseteq> b)"

subsection \<open>Go slices over a store of backing arrays\<close>

text \<open>
  \<^verbatim>\<open>type WeakKeys []opt.ColSet\<close>. A Go slice is a header (pointer into a
  backing array, length, capacity); several headers may look at the same array. The
  store is the list of all backing arrays allocated so far, an address is an index into
  it, and allocation appends a new array. A header names its array, the offset of its
  first element in that array, its length and its capacity. A header of capacity 0
  (the nil slice among them) never dereferences its pointer.
\<close>

type_synonym addr = nat

type_synonym heap = "ColSet list list"

record WeakKeys =
  arr :: addr
  off :: nat
  len :: nat
  cap :: nat

definition wf :: "heap \<Rightarrow> WeakKeys \<Rightarrow> bool" where
  \<comment> \<open>What Go guarantees of every slice value: the length is within the capacity and
      the capacity within the backing array.\<close>
  "wf h s = (len s \<le> cap s \<and>
             (0 < cap s \<longrightarrow> arr s < length h \<and> off s + cap s \<le> length (h ! arr s)))"

definition get :: "heap \<Rightarrow> WeakKeys \<Rightarrow> nat \<Rightarrow> ColSet" where
  \<comment> \<open>\<^verbatim>\<open>s[i]\<close>, read; used only with \<open>i < len s\<close>.\<close>
  "get h s i = h ! arr s ! (off s + i)"

definition put :: "heap \<Rightarrow> WeakKeys \<Rightarrow> nat \<Rightarrow> ColSet \<Rightarrow> heap" where
  \<comment> \<open>\<^verbatim>\<open>s[i] = v\<close>; used only with \<open>i < cap s\<close>.\<close>
  "put h s i v = h[arr s := (h ! arr s)[off s + i := v]]"

definition elems :: "heap \<Rightarrow> WeakKeys \<Rightarrow> ColSet list" where
  \<comment> \<open>The observable elements of a slice: \<^verbatim>\<open>s[0], ..., s[len(s)-1]\<close>. An empty
      slice has none, whatever its pointer.\<close>
  "elems h s = (if len s = 0 then [] else take (len s) (drop (off s) (h ! arr s)))"

definition nil_keys :: WeakKeys where
  "nil_keys = \<lparr>arr = 0, off = 0, len = 0, cap = 0\<rparr>"

definition make :: "heap \<Rightarrow> nat \<Rightarrow> nat \<Rightarrow> heap \<times> WeakKeys" where
  \<comment> \<open>\<^verbatim>\<open>make(WeakKeys, n, c)\<close>: a new array of \<open>c\<close> zero values.\<close>
  "make h n c = (h @ [replicate c {}], \<lparr>arr = length h, off = 0, len = n, cap = c\<rparr>)"

definition copy_slice :: "heap \<Rightarrow> WeakKeys \<Rightarrow> WeakKeys \<Rightarrow> heap" where
  \<comment> \<open>The builtin \<^verbatim>\<open>copy(dst, src)\<close>: the first \<open>min (len dst) (len src)\<close>
      elements of \<open>src\<close>, read before any is written, go to the front of \<open>dst\<close>.\<close>
  "copy_slice h dst src =
     (let n = min (len dst) (len src);
          vs = take n (elems h src);
          a = h ! arr dst
      in if n = 0 then h
         else h[arr dst := take (off dst) a @ vs @ drop (off dst + n) a])"

definition append1 :: "(nat \<Rightarrow> nat) \<Rightarrow> heap \<Rightarrow> WeakKeys \<Rightarrow> ColSet \<Rightarrow> heap \<times> WeakKeys" where
  \<comment> \<open>The builtin \<^verbatim>\<open>append(s, v)\<close>. With room left, \<open>v\<close> is written into the backing
      array behind the last element. Otherwise a new, sufficiently large array is
      allocated and the elements are copied over. How much larger is the Go runtime's
      choice; the growth policy \<open>grow\<close> (from the old capacity) is a parameter.\<close>
  "append1 grow h s v =
     (if len s < cap s then (put h s (len s) v, s\<lparr>len := len s + 1\<rparr>)
      else (let c = max (len s + 1) (grow (cap s))
            in (h @ [elems h s @ [v] @ replicate (c - len s - 1) {}],
                \<lparr>arr = length h, off = 0, len = len s + 1, cap = c\<rparr>)))"

subsection \<open>ContainsSubsetOf\<close>

function ContainsSubsetOf_loop :: "heap \<Rightarrow> WeakKeys \<Rightarrow> ColSet \<Rightarrow> nat \<Rightarrow> bool" where
  "ContainsSubsetOf_loop h wk weakKey i =
     (if i < len wk then
        (let existing = get h wk i
         in if SubsetOf existing weakKey then True
            else ContainsSubsetOf_loop h wk weakKey (i + 1))
      else False)"
  by pat_completeness auto
termination
  by (relation "measure (\<lambda>(h, wk, weakKey, i). len wk - i)") auto

declare ContainsSubsetOf_loop.simps [simp del]

definition ContainsSubsetOf :: "heap \<Rightarrow> WeakKeys \<Rightarrow> ColSet \<Rightarrow> heap \<times> bool" where
  \<comment> \<open>The store is threaded through like in every other operation; the source has no
      assignment, so the loop only reads it.\<close>
  "ContainsSubsetOf h wk weakKey = (h, ContainsSubsetOf_loop h wk weakKey 0)"

subsection \<open>Add\<close>

datatype loop_exit =
  Returned heap          \<comment> \<open>the \<^verbatim>\<open>return\<close> inside the loop\<close>
| Finished heap nat      \<comment> \<open>the loop ran to its end, with this value of \<^verbatim>\<open>insert\<close>\<close>

function Add_loop :: "heap \<Rightarrow> WeakKeys \<Rightarrow> ColSet \<Rightarrow> nat \<Rightarrow> nat \<Rightarrow> loop_exit" where
  "Add_loop h wk new i ins =
     (if i < len wk then
        (let existing = get h wk i
         in if SubsetOf existing new then Returned h
            else if \<not> SubsetOf new existing then
              Add_loop (if ins \<noteq> i then put h wk ins existing else h) wk new (i + 1) (ins + 1)
            else Add_loop h wk new (i + 1) ins)
      else Finished h ins)"
  by pat_completeness auto
termination
  by (relation "measure (\<lambda>(h, wk, new, i, ins). len wk - i)") auto

declare Add_loop.simps [simp del]

definition Add :: "(nat \<Rightarrow> nat) \<Rightarrow> heap \<Rightarrow> WeakKeys \<Rightarrow> ColSet \<Rightarrow> heap \<times> WeakKeys" where
  \<comment> \<open>\<^verbatim>\<open>func (wk *WeakKeys) Add(new opt.ColSet)\<close>: the result is the store and the
      header left in \<^verbatim>\<open>*wk\<close>. The source's variable \<^verbatim>\<open>insert\<close> is \<open>ins\<close> here.\<close>
  "Add grow h wk new =
     (case Add_loop h wk new 0 0 of
        Returned h' \<Rightarrow> (h', wk)
      | Finished h' ins \<Rightarrow> append1 grow h' (wk\<lparr>len := ins\<rparr>) new)"

subsection \<open>Copy and Combine\<close>

definition Copy :: "heap \<Rightarrow> WeakKeys \<Rightarrow> heap \<times> WeakKeys" where
  "Copy h wk =
     (let (h1, res) = make h (len wk) (len wk)
      in (copy_slice h1 res wk, res))"

function Combine_loop :: "(nat \<Rightarrow> nat) \<Rightarrow> heap \<Rightarrow> WeakKeys \<Rightarrow> WeakKeys \<Rightarrow> nat \<Rightarrow> heap \<times> WeakKeys" where
  "Combine_loop grow h res other i =
     (if i < len other then
        (let k = get h other i;
             (h', res') = Add grow h res k
         in Combine_loop grow h' res' other (i + 1))
      else (h, res))"
  by pat_completeness auto
termination
  by (relation "measure (\<lambda>(grow, h, res, other, i). len other - i)") auto

declare Combine_loop.simps [simp del]

definition Combine :: "(nat \<Rightarrow> nat) \<Rightarrow> heap \<Rightarrow> WeakKeys \<Rightarrow> WeakKeys \<Rightarrow> heap \<times> WeakKeys" where
  "Combine grow h wk other =
     (if len wk = 0 then (h, other)
      else if len other = 0 then (h, wk)
      else (let (h1, res) = make h (len wk) (len wk + len other);
                h2 = copy_slice h1 res wk
            in Combine_loop grow h2 res other 0))"

subsection \<open>The antichain invariant\<close>

fun antichain :: "ColSet list \<Rightarrow> bool" where
  "antichain [] = True"
| "antichain (x # xs) = ((\<forall>y \<in> set xs. \<not> SubsetOf x y \<and> \<not> SubsetOf y x) \<and> antichain xs)"

subsection \<open>Specification-level notions\<close>

definition add_spec :: "ColSet list \<Rightarrow> ColSet \<Rightarrow> ColSet list" where
  \<comment> \<open>The spec's description of add, on the element sequence: a key that has a stored
      subset changes nothing; otherwise the stored supersets of the key go and the key
      is appended.\<close>
  "add_spec xs k =
     (if \<exists>e \<in> set xs. SubsetOf e k then xs
      else filter (\<lambda>e. \<not> SubsetOf k e) xs @ [k])"

definition minimal :: "ColSet set \<Rightarrow> ColSet set" where
  \<comment> \<open>The minimal elements of a collection of column sets under the subset relation.\<close>
  "minimal U = {x \<in> U. \<forall>y \<in> U. SubsetOf y x \<longrightarrow> y = x}"

definition shares :: "WeakKeys \<Rightarrow> WeakKeys \<Rightarrow> bool" where
  \<comment> \<open>Two headers share backing storage: some cell of one array is within the capacity
      of both.\<close>
  "shares s t = (0 < cap s \<and> 0 < cap t \<and> arr s = arr t \<and>
                 off s < off t + cap t \<and> off t < off s + cap s)"

definition frame :: "WeakKeys \<Rightarrow> heap \<Rightarrow> heap \<Rightarrow> bool" where
  \<comment> \<open>From \<open>h\<close> to \<open>h'\<close> arrays were only added, and the arrays of \<open>h\<close> changed
      at most in the cells within the capacity of \<open>s\<close>.\<close>
  "frame s h h' =
     (length h \<le> length h' \<and>
      (\<forall>a < length h. length (h' ! a) = length (h ! a) \<and>
         (\<forall>j < length (h ! a).
            (0 < cap s \<and> a = arr s \<and> off s \<le> j \<and> j < off s + cap s) \<or> h' ! a ! j = h ! a ! j)))"

definition splice :: "'a list \<Rightarrow> nat \<Rightarrow> 'a list \<Rightarrow> 'a list" where
  \<comment> \<open>The array \<open>a\<close> with the cells from position \<open>p\<close> on overwritten by \<open>vs\<close>.\<close>
  "splice a p vs = take p a @ vs @ drop (p + length vs) a"

fun Adds :: "(nat \<Rightarrow> nat) \<Rightarrow> heap \<Rightarrow> WeakKeys \<Rightarrow> ColSet list \<Rightarrow> heap \<times> WeakKeys" where
  \<comment> \<open>A caller adding the keys \<open>ks\<close> to the same variable, one call after the other.\<close>
  "Adds grow h wk [] = (h, wk)"
| "Adds grow h wk (k # ks) = (let (h', wk') = Add grow h wk k in Adds grow h' wk' ks)"

fun interleave ::
  "(nat \<Rightarrow> nat) \<Rightarrow> heap \<Rightarrow> WeakKeys \<Rightarrow> WeakKeys \<Rightarrow> (bool \<times> ColSet) list \<Rightarrow> heap \<times> WeakKeys \<times> WeakKeys" where
  \<comment> \<open>A caller holding two variables and adding keys to them in any order: \<open>(True, k)\<close>
      adds \<open>k\<close> to the first variable, \<open>(False, k)\<close> to the second.\<close>
  "interleave grow h a b [] = (h, a, b)"
| "interleave grow h a b ((first, k) # ops) =
     (if first then (let (h', a') = Add grow h a k in interleave grow h' a' b ops)
      else (let (h', b') = Add grow h b k in interleave grow h' a b' ops))"

section \<open>Slices and the store\<close>

lemma splice_Nil [simp]: "splice a p [] = a"
  by (simp add: splice_def)

lemma length_splice [simp]: "p + length vs \<le> length a \<Longrightarrow> length (splice a p vs) = length a"
  by (simp add: splice_def)

lemma nth_splice:
  "p + length vs \<le> length a \<Longrightarrow> j < length a \<Longrightarrow>
   splice a p vs ! j = (if p \<le> j \<and> j < p + length vs then vs ! (j - p) else a ! j)"
  by (auto simp: splice_def nth_append)

lemma splice_update_Cons:
  "p < length a \<Longrightarrow> splice (a[p := x]) (Suc p) vs = splice a p (x # vs)"
  by (simp add: splice_def take_Suc_conv_app_nth)

lemma splice_snoc:
  "p + length vs < length a \<Longrightarrow> (splice a p vs)[p + length vs := x] = splice a p (vs @ [x])"
  by (simp add: splice_def list_update_append upd_conv_take_nth_drop)

lemma take_drop_splice:
  "p + length vs \<le> length a \<Longrightarrow> take (length vs) (drop p (splice a p vs)) = vs"
  by (simp add: splice_def)

lemma elems_alt: "elems h s = take (len s) (drop (off s) (h ! arr s))"
  by (simp add: elems_def)

lemma length_elems [simp]: "wf h s \<Longrightarrow> length (elems h s) = len s"
  by (auto simp: elems_def wf_def)

lemma elems_nth: "wf h s \<Longrightarrow> i < len s \<Longrightarrow> elems h s ! i = get h s i"
  by (auto simp: elems_def wf_def get_def)

lemma wf_in_range: "wf h s \<Longrightarrow> i < len s \<Longrightarrow> arr s < length h \<and> off s + i < length (h ! arr s)"
  by (auto simp: wf_def)

lemma put_get_same: "put h s i (get h s i) = h"
  by (simp add: put_def get_def)

lemma heap_upd_nth:
  "h[a := x] ! b = (if a = b \<and> a < length h then x else h ! b)"
  by (cases "a < length h") (auto simp: nth_list_update list_update_beyond)

lemma wf_put [simp]: "wf (put h s i v) t = wf h t"
  by (auto simp: wf_def put_def heap_upd_nth)

lemma elems_put:
  "wf h s \<Longrightarrow> i < len s \<Longrightarrow> elems (put h s i v) s = (elems h s)[i := v]"
  by (auto simp: elems_def put_def wf_def drop_update_swap take_update_swap)

lemma get_put_other:
  "wf h s \<Longrightarrow> i \<noteq> j \<Longrightarrow> get (put h s i v) s j = get h s j"
  by (auto simp: get_def put_def heap_upd_nth nth_list_update)


section \<open>The loop of Add\<close>

lemma Add_loop_Finished:
  "wf h wk \<Longrightarrow> ins \<le> i \<Longrightarrow> i \<le> len wk \<Longrightarrow>
   (\<forall>j. i \<le> j \<longrightarrow> j < len wk \<longrightarrow> \<not> SubsetOf (get h wk j) new) \<Longrightarrow>
   Add_loop h wk new i ins =
     Finished (h[arr wk := splice (h ! arr wk) (off wk + ins)
                  (filter (\<lambda>e. \<not> SubsetOf new e) (drop i (elems h wk)))])
              (ins + length (filter (\<lambda>e. \<not> SubsetOf new e) (drop i (elems h wk))))"
proof (induction h wk new i ins rule: Add_loop.induct)
  case (1 h wk new i ins)
  let ?keep = "\<lambda>e. \<not> SubsetOf new e"
  show ?case
  proof (cases "i < len wk")
    case False
    with "1.prems" have "drop i (elems h wk) = []" by simp
    with False show ?thesis by (subst Add_loop.simps) simp
  next
    case True
    let ?e = "get h wk i"
    from True "1.prems" have ne: "\<not> SubsetOf ?e new" by simp
    from True "1.prems" have rng: "arr wk < length h" "off wk + i < length (h ! arr wk)"
      using wf_in_range by blast+
    from True "1.prems" have dr: "drop i (elems h wk) = ?e # drop (Suc i) (elems h wk)"
      by (metis Cons_nth_drop_Suc elems_nth length_elems)
    show ?thesis
    proof (cases "SubsetOf new ?e")
      case True
      have "Add_loop h wk new i ins = Add_loop h wk new (i + 1) ins"
        using \<open>i < len wk\<close> ne True by (subst Add_loop.simps) simp
      also have "\<dots> = Finished (h[arr wk := splice (h ! arr wk) (off wk + ins)
                  (filter ?keep (drop (i + 1) (elems h wk)))])
              (ins + length (filter ?keep (drop (i + 1) (elems h wk))))"
        using "1.IH"(2)[OF \<open>i < len wk\<close> refl ne] True "1.prems" \<open>i < len wk\<close> by simp
      finally show ?thesis using True dr by simp
    next
      case False
      let ?h1 = "put h wk ins ?e"
      have h1: "(if ins \<noteq> i then put h wk ins ?e else h) = ?h1"
        by (simp add: put_get_same)
      have step: "Add_loop h wk new i ins = Add_loop ?h1 wk new (i + 1) (ins + 1)"
        using \<open>i < len wk\<close> ne False h1 by (subst Add_loop.simps) (simp add: Let_def)
      have insl: "ins < len wk" using "1.prems" \<open>i < len wk\<close> by simp
      have e1: "drop (i + 1) (elems ?h1 wk) = drop (i + 1) (elems h wk)"
        using "1.prems" insl by (simp add: elems_put)
      have g1: "\<forall>j. i + 1 \<le> j \<longrightarrow> j < len wk \<longrightarrow> \<not> SubsetOf (get ?h1 wk j) new"
        using "1.prems" by (auto simp: get_put_other)
      have "Add_loop ?h1 wk new (i + 1) (ins + 1) =
         Finished (?h1[arr wk := splice (?h1 ! arr wk) (off wk + (ins + 1))
                  (filter ?keep (drop (i + 1) (elems ?h1 wk)))])
              (ins + 1 + length (filter ?keep (drop (i + 1) (elems ?h1 wk))))"
        using "1.IH"(1)[OF \<open>i < len wk\<close> refl ne] False h1 g1 "1.prems" \<open>i < len wk\<close> by simp
      also have "?h1 ! arr wk = (h ! arr wk)[off wk + ins := ?e]"
        using rng by (simp add: put_def)
      also have "?h1[arr wk := splice ((h ! arr wk)[off wk + ins := ?e]) (off wk + (ins + 1))
                  (filter ?keep (drop (i + 1) (elems ?h1 wk)))] =
                 h[arr wk := splice (h ! arr wk) (off wk + ins)
                  (?e # filter ?keep (drop (i + 1) (elems h wk)))]"
        using rng "1.prems" e1 by (simp add: put_def splice_update_Cons)
      finally show ?thesis using step False dr e1 by simp
    qed
  qed
qed

lemma Add_loop_Returned:
  "i \<le> m \<Longrightarrow> m < len wk \<Longrightarrow> SubsetOf (get h wk m) new \<Longrightarrow>
   (\<forall>j. i \<le> j \<longrightarrow> j < m \<longrightarrow> \<not> SubsetOf new (get h wk j)) \<Longrightarrow>
   Add_loop h wk new i i = Returned h"
proof (induction "m - i" arbitrary: i)
  case 0
  then have "i = m" by simp
  with 0 show ?case by (subst Add_loop.simps) simp
next
  case (Suc d)
  then have lt: "i < m" "i < len wk" by simp_all
  show ?case
  proof (cases "SubsetOf (get h wk i) new")
    case True
    with lt show ?thesis by (subst Add_loop.simps) simp
  next
    case False
    from Suc.prems lt have keep: "\<not> SubsetOf new (get h wk i)" by simp
    have "Add_loop h wk new i i = Add_loop h wk new (i + 1) (i + 1)"
      using lt False keep by (subst Add_loop.simps) simp
    also have "\<dots> = Returned h"
      using Suc.hyps(1)[of "i + 1"] Suc.hyps(2) Suc.prems lt by simp
    finally show ?thesis .
  qed
qed

lemma ContainsSubsetOf_loop_iff:
  "ContainsSubsetOf_loop h wk k i = (\<exists>j. i \<le> j \<and> j < len wk \<and> SubsetOf (get h wk j) k)"
proof (induction h wk k i rule: ContainsSubsetOf_loop.induct)
  case (1 h wk k i)
  show ?case
  proof (cases "i < len wk")
    case False
    then show ?thesis by (subst ContainsSubsetOf_loop.simps) auto
  next
    case True
    show ?thesis
    proof (cases "SubsetOf (get h wk i) k")
      case True
      with \<open>i < len wk\<close> show ?thesis by (subst ContainsSubsetOf_loop.simps) auto
    next
      case False
      have "ContainsSubsetOf_loop h wk k i = ContainsSubsetOf_loop h wk k (i + 1)"
        using \<open>i < len wk\<close> False by (subst ContainsSubsetOf_loop.simps) simp
      also have "\<dots> = (\<exists>j. i + 1 \<le> j \<and> j < len wk \<and> SubsetOf (get h wk j) k)"
        using "1.IH"[OF \<open>i < len wk\<close> refl False] .
      also have "\<dots> = (\<exists>j. i \<le> j \<and> j < len wk \<and> SubsetOf (get h wk j) k)"
        using False by (metis Suc_eq_plus1 Suc_leD Suc_leI le_neq_implies_less)
      finally show ?thesis .
    qed
  qed
qed

lemma set_elems_conv:
  "wf h s \<Longrightarrow> (\<exists>e \<in> set (elems h s). P e) = (\<exists>j. j < len s \<and> P (get h s j))"
  by (metis elems_nth in_set_conv_nth length_elems)

section \<open>Antichains\<close>

lemma antichain_nth:
  "antichain xs \<Longrightarrow> i < length xs \<Longrightarrow> j < length xs \<Longrightarrow> i \<noteq> j \<Longrightarrow> \<not> SubsetOf (xs ! i) (xs ! j)"
proof (induction xs arbitrary: i j)
  case Nil
  then show ?case by simp
next
  case (Cons x xs)
  then show ?case
    by (cases i; cases j) auto
qed

lemma antichain_append1:
  "antichain (xs @ [k]) = (antichain xs \<and> (\<forall>y \<in> set xs. \<not> SubsetOf y k \<and> \<not> SubsetOf k y))"
  by (induction xs) auto

lemma antichain_filter: "antichain xs \<Longrightarrow> antichain (filter P xs)"
  by (induction xs) auto

lemma antichain_add_spec: "antichain xs \<Longrightarrow> antichain (add_spec xs k)"
  by (auto simp: add_spec_def antichain_append1 antichain_filter)

section \<open>What Add does to the elements\<close>

lemma SubsetOf_trans: "SubsetOf a b \<Longrightarrow> SubsetOf b c \<Longrightarrow> SubsetOf a c"
  by (auto simp: SubsetOf_def)

lemma Add_hit:
  assumes "wf h wk" and "antichain (elems h wk)" and "\<exists>e \<in> set (elems h wk). SubsetOf e k"
  shows "Add grow h wk k = (h, wk)"
proof -
  from assms(1,3) obtain m where m: "m < len wk" "SubsetOf (get h wk m) k"
    by (auto simp: set_elems_conv)
  have "\<not> SubsetOf k (get h wk j)" if "j < m" for j
  proof
    assume "SubsetOf k (get h wk j)"
    with m have "SubsetOf (get h wk m) (get h wk j)" by (blast intro: SubsetOf_trans)
    moreover have "\<not> SubsetOf (elems h wk ! m) (elems h wk ! j)"
      using antichain_nth[OF assms(2), of m j] m that assms(1) by simp
    ultimately show False using m that assms(1) by (simp add: elems_nth)
  qed
  then have "Add_loop h wk k 0 0 = Returned h"
    using Add_loop_Returned[of 0 m wk h k] m by simp
  then show ?thesis by (simp add: Add_def)
qed

lemma filter_length_eq: "length (filter P xs) = length xs \<Longrightarrow> filter P xs = xs"
  by (metis filter_True length_filter_less less_irrefl)

lemma splice_self: "splice a p (take n (drop p a)) = a"
proof -
  have "drop (p + length (take n (drop p a))) a = drop n (drop p a)"
    by (cases "n \<le> length a - p") (simp_all add: min_def add.commute)
  then have "splice a p (take n (drop p a)) = take p a @ (take n (drop p a) @ drop n (drop p a))"
    by (simp add: splice_def)
  then show ?thesis by (simp only: append_take_drop_id)
qed

lemma Add_no_hit:
  assumes "wf h wk" and "\<not> (\<exists>e \<in> set (elems h wk). SubsetOf e k)"
    and "Add grow h wk k = (h', wk')"
  shows "elems h' wk' = filter (\<lambda>e. \<not> SubsetOf k e) (elems h wk) @ [k] \<and> wf h' wk'"
proof -
  let ?F = "filter (\<lambda>e. \<not> SubsetOf k e) (elems h wk)"
  let ?A = "h ! arr wk"
  let ?h1 = "h[arr wk := splice ?A (off wk) ?F]"
  have FL: "length ?F \<le> len wk"
    using length_filter_le[of _ "elems h wk"] assms(1) by simp
  have "Add_loop h wk k 0 0 = Finished ?h1 (length ?F)"
    using Add_loop_Finished[of h wk 0 0 k] assms(1,2) by (simp add: set_elems_conv)
  then have A: "append1 grow ?h1 (wk\<lparr>len := length ?F\<rparr>) k = (h', wk')"
    using assms(3) by (simp add: Add_def)
  show ?thesis
  proof (cases "length ?F < cap wk")
    case True
    with assms(1) have rng: "arr wk < length h" "off wk + cap wk \<le> length ?A"
      by (auto simp: wf_def)
    from A True rng have h': "h' = h[arr wk := splice ?A (off wk) (?F @ [k])]"
      and wk': "wk' = wk\<lparr>len := length ?F + 1\<rparr>"
      by (auto simp: append1_def put_def splice_snoc)
    have "take (length (?F @ [k])) (drop (off wk) (splice ?A (off wk) (?F @ [k]))) = ?F @ [k]"
      using True rng by (intro take_drop_splice) simp
    then have "elems h' wk' = ?F @ [k]"
      using rng by (simp add: elems_def h' wk')
    moreover have "wf h' wk'"
      using True rng assms(1) by (simp add: wf_def h' wk')
    ultimately show ?thesis by simp
  next
    case False
    with FL assms(1) have eq: "length ?F = len wk" "len wk = cap wk" by (auto simp: wf_def)
    then have F: "?F = elems h wk" using assms(1) by (simp add: filter_length_eq)
    have "splice ?A (off wk) (elems h wk) = ?A"
      by (simp add: elems_alt splice_self)
    with F have h1: "?h1 = h" by simp
    from A False eq h1 F have "elems h' wk' = ?F @ [k]" "wf h' wk'"
      by (auto simp: append1_def Let_def elems_def wf_def)
    then show ?thesis by simp
  qed
qed

lemma antichain_with_empty:
  assumes "antichain xs" and "{} \<in> set xs"
  shows "xs = [{}]"
proof (cases xs)
  case Nil
  with assms show ?thesis by simp
next
  case (Cons x ys)
  have "ys = []"
  proof (rule ccontr)
    assume "ys \<noteq> []"
    then obtain y where y: "y \<in> set ys" by (cases ys) auto
    from assms Cons y show False by (auto simp: SubsetOf_def)
  qed
  with assms Cons show ?thesis by simp
qed

section \<open>ContainsSubsetOf and Add on an antichain\<close>

text \<open>
  C4. For every slice \<open>wk\<close> and every column set \<open>candidate\<close>, ContainsSubsetOf returns
  true exactly when some stored element is a subset of the candidate (an element equal
  to the candidate counts, the subset test being reflexive), and the store after the
  call is the store before it.
\<close>

theorem ContainsSubsetOf_correct:
  "wf h wk \<Longrightarrow>
   ContainsSubsetOf h wk candidate = (h, \<exists>e \<in> set (elems h wk). SubsetOf e candidate)"
  by (simp add: ContainsSubsetOf_def ContainsSubsetOf_loop_iff set_elems_conv)

theorem ContainsSubsetOf_correct_witness:
  "wf [[{1, 2}, {3}]] \<lparr>arr = 0, off = 0, len = 2, cap = 2\<rparr> \<and>
   ContainsSubsetOf [[{1, 2}, {3}]] \<lparr>arr = 0, off = 0, len = 2, cap = 2\<rparr> {3, 4}
     = ([[{1, 2}, {3}]], True) \<and>
   ContainsSubsetOf [[{1, 2}, {3}]] \<lparr>arr = 0, off = 0, len = 2, cap = 2\<rparr> {1, 4}
     = ([[{1, 2}, {3}]], False)"
  using ContainsSubsetOf_correct[of "[[{1, 2}, {3}]]" "\<lparr>arr = 0, off = 0, len = 2, cap = 2\<rparr>" "{3, 4}"]
    ContainsSubsetOf_correct[of "[[{1, 2}, {3}]]" "\<lparr>arr = 0, off = 0, len = 2, cap = 2\<rparr>" "{1, 4}"]
  by (simp add: wf_def elems_def SubsetOf_def)

text \<open>
  C2. If the slice is an antichain and some stored element is a subset of the new key,
  Add returns from inside its loop before it has written anything: the store and the
  header are the ones it was called with, so the elements and their order are the same
  and no cell was overwritten.
\<close>

theorem Add_redundant_unchanged:
  "wf h wk \<Longrightarrow> antichain (elems h wk) \<Longrightarrow> \<exists>e \<in> set (elems h wk). SubsetOf e k \<Longrightarrow>
   Add grow h wk k = (h, wk)"
  by (rule Add_hit)

theorem Add_redundant_unchanged_witness:
  "wf [[{1}]] \<lparr>arr = 0, off = 0, len = 1, cap = 1\<rparr> \<and>
   antichain (elems [[{1}]] \<lparr>arr = 0, off = 0, len = 1, cap = 1\<rparr>) \<and>
   (\<exists>e \<in> set (elems [[{1}]] \<lparr>arr = 0, off = 0, len = 1, cap = 1\<rparr>). SubsetOf e {1, 2}) \<and>
   Add ((*) 2) [[{1}]] \<lparr>arr = 0, off = 0, len = 1, cap = 1\<rparr> {1, 2}
     = ([[{1}]], \<lparr>arr = 0, off = 0, len = 1, cap = 1\<rparr>)"
  using Add_redundant_unchanged[of "[[{1}]]" "\<lparr>arr = 0, off = 0, len = 1, cap = 1\<rparr>" "{1, 2}" "(*) 2"]
  by (simp add: wf_def elems_def SubsetOf_def)

text \<open>
  The invariant is needed there. On a slice that is no antichain the loop may have
  moved elements forward before it meets a stored subset of the key and returns: here
  \<open>{1, 2}\<close> was dropped and \<open>{3}\<close> written over it before \<open>{1}\<close> stopped the call.
\<close>

lemma Add_early_return_example:
  "Add ((*) 2) [[{1, 2}, {3}, {1}]] \<lparr>arr = 0, off = 0, len = 3, cap = 3\<rparr> {1}
     = ([[{3}, {3}, {1}]], \<lparr>arr = 0, off = 0, len = 3, cap = 3\<rparr>)"
  by (simp add: Add_def Add_loop.simps get_def put_def SubsetOf_def Let_def)

text \<open>
  C3. If no stored element is a subset of the new key, the elements after Add are the
  prior elements of which the key is not a subset, in their order, followed by the key.
  The prior supersets of the key are gone. This holds of every slice, an antichain or not.
\<close>

theorem Add_compacts_and_appends:
  "wf h wk \<Longrightarrow> \<not> (\<exists>e \<in> set (elems h wk). SubsetOf e k) \<Longrightarrow> Add grow h wk k = (h', wk') \<Longrightarrow>
   elems h' wk' = filter (\<lambda>e. \<not> SubsetOf k e) (elems h wk) @ [k]"
  using Add_no_hit by blast

theorem Add_compacts_and_appends_witness:
  "wf [[{1, 2}, {3}, {1, 4}]] \<lparr>arr = 0, off = 0, len = 3, cap = 3\<rparr> \<and>
   \<not> (\<exists>e \<in> set (elems [[{1, 2}, {3}, {1, 4}]] \<lparr>arr = 0, off = 0, len = 3, cap = 3\<rparr>). SubsetOf e {1}) \<and>
   Add ((*) 2) [[{1, 2}, {3}, {1, 4}]] \<lparr>arr = 0, off = 0, len = 3, cap = 3\<rparr> {1}
     = ([[{3}, {1}, {1, 4}]], \<lparr>arr = 0, off = 0, len = 2, cap = 3\<rparr>) \<and>
   elems [[{3}, {1}, {1, 4}]] \<lparr>arr = 0, off = 0, len = 2, cap = 3\<rparr> = [{3}, {1}]"
  using Add_compacts_and_appends[of "[[{1, 2}, {3}, {1, 4}]]" "\<lparr>arr = 0, off = 0, len = 3, cap = 3\<rparr>"
      "{1}" "(*) 2" "[[{3}, {1}, {1, 4}]]" "\<lparr>arr = 0, off = 0, len = 2, cap = 3\<rparr>"]
  by (simp add: wf_def elems_def SubsetOf_def Add_def Add_loop.simps get_def put_def append1_def Let_def)

lemma Add_elems_add_spec:
  assumes "wf h wk" and "antichain (elems h wk)" and "Add grow h wk k = (h', wk')"
  shows "elems h' wk' = add_spec (elems h wk) k \<and> wf h' wk'"
proof (cases "\<exists>e \<in> set (elems h wk). SubsetOf e k")
  case True
  with assms have "(h', wk') = (h, wk)" using Add_hit[of h wk k grow] by simp
  with True assms(1) show ?thesis by (simp add: add_spec_def)
next
  case False
  with assms Add_no_hit[of h wk k grow h' wk'] show ?thesis by (simp add: add_spec_def)
qed

text \<open>
  C6. Add with the empty column set on a non-empty antichain leaves exactly one
  element, the empty column set. No branch of Add treats the empty key specially: it is
  a subset of every stored element, so the loop drops them all and the key is appended;
  the only antichain that already holds the empty set is the one consisting of it alone,
  and there Add changes nothing.
\<close>

theorem Add_empty_key:
  assumes "wf h wk" and "antichain (elems h wk)" and "0 < len wk"
    and "Add grow h wk {} = (h', wk')"
  shows "elems h' wk' = [{}]"
proof (cases "\<exists>e \<in> set (elems h wk). SubsetOf e {}")
  case True
  then have "{} \<in> set (elems h wk)" by (auto simp: SubsetOf_def)
  with assms(2) have "elems h wk = [{}]" by (rule antichain_with_empty)
  moreover from True assms have "(h', wk') = (h, wk)" using Add_hit[of h wk "{}" grow] by simp
  ultimately show ?thesis by simp
next
  case False
  have "filter (\<lambda>e. \<not> SubsetOf {} e) (elems h wk) = []"
    by (simp add: SubsetOf_def)
  with False assms Add_no_hit[of h wk "{}" grow h' wk'] show ?thesis by simp
qed

theorem Add_empty_key_witness:
  "wf [[{1, 2}, {3}, {}]] \<lparr>arr = 0, off = 0, len = 2, cap = 3\<rparr> \<and>
   antichain (elems [[{1, 2}, {3}, {}]] \<lparr>arr = 0, off = 0, len = 2, cap = 3\<rparr>) \<and>
   0 < len \<lparr>arr = 0, off = 0, len = 2, cap = 3\<rparr> \<and>
   Add ((*) 2) [[{1, 2}, {3}, {}]] \<lparr>arr = 0, off = 0, len = 2, cap = 3\<rparr> {}
     = ([[{}, {3}, {}]], \<lparr>arr = 0, off = 0, len = 1, cap = 3\<rparr>) \<and>
   elems [[{}, {3}, {}]] \<lparr>arr = 0, off = 0, len = 1, cap = 3\<rparr> = [{}]"
  using Add_empty_key[of "[[{1, 2}, {3}, {}]]" "\<lparr>arr = 0, off = 0, len = 2, cap = 3\<rparr>" "(*) 2"
      "[[{}, {3}, {}]]" "\<lparr>arr = 0, off = 0, len = 1, cap = 3\<rparr>"]
  by (simp add: wf_def elems_def SubsetOf_def Add_def Add_loop.simps get_def put_def append1_def Let_def)

text \<open>
  C5. On an antichain, ContainsSubsetOf answers true for a key exactly when Add of that
  key is a no-op: the elements after Add are the elements before it; and then Add has
  in fact returned the very store and header it was given.
\<close>

theorem ContainsSubsetOf_iff_Add_noop:
  assumes "wf h wk" and "antichain (elems h wk)" and "Add grow h wk k = (h', wk')"
  shows "snd (ContainsSubsetOf h wk k) = (elems h' wk' = elems h wk) \<and>
         snd (ContainsSubsetOf h wk k) = ((h', wk') = (h, wk))"
proof (cases "\<exists>e \<in> set (elems h wk). SubsetOf e k")
  case True
  with assms have "(h', wk') = (h, wk)" using Add_hit[of h wk k grow] by simp
  moreover from True assms(1) have "snd (ContainsSubsetOf h wk k)"
    by (simp add: ContainsSubsetOf_def ContainsSubsetOf_loop_iff set_elems_conv)
  ultimately show ?thesis by simp
next
  case False
  let ?F = "filter (\<lambda>e. \<not> SubsetOf k e) (elems h wk)"
  from False assms have e: "elems h' wk' = ?F @ [k]"
    using Add_no_hit[of h wk k grow h' wk'] by simp
  have ne: "elems h' wk' \<noteq> elems h wk"
  proof
    assume "elems h' wk' = elems h wk"
    with e have "k \<in> set (elems h wk)" by (metis in_set_conv_decomp)
    with False show False by (auto simp: SubsetOf_def)
  qed
  then have "(h', wk') \<noteq> (h, wk)" by auto
  moreover from False assms(1) have "\<not> snd (ContainsSubsetOf h wk k)"
    by (simp add: ContainsSubsetOf_def ContainsSubsetOf_loop_iff set_elems_conv)
  ultimately show ?thesis using ne by simp
qed

theorem ContainsSubsetOf_iff_Add_noop_witness:
  "wf [[{1}, {2, 3}]] \<lparr>arr = 0, off = 0, len = 2, cap = 2\<rparr> \<and>
   antichain (elems [[{1}, {2, 3}]] \<lparr>arr = 0, off = 0, len = 2, cap = 2\<rparr>) \<and>
   Add ((*) 2) [[{1}, {2, 3}]] \<lparr>arr = 0, off = 0, len = 2, cap = 2\<rparr> {1, 2}
     = ([[{1}, {2, 3}]], \<lparr>arr = 0, off = 0, len = 2, cap = 2\<rparr>) \<and>
   snd (ContainsSubsetOf [[{1}, {2, 3}]] \<lparr>arr = 0, off = 0, len = 2, cap = 2\<rparr> {1, 2})"
  using ContainsSubsetOf_iff_Add_noop[of "[[{1}, {2, 3}]]" "\<lparr>arr = 0, off = 0, len = 2, cap = 2\<rparr>"
      "(*) 2" "{1, 2}" "[[{1}, {2, 3}]]" "\<lparr>arr = 0, off = 0, len = 2, cap = 2\<rparr>"]
  by (simp add: wf_def elems_def SubsetOf_def Add_def Add_loop.simps get_def put_def append1_def Let_def)

section \<open>What an operation leaves alone\<close>

lemma frame_refl [simp]: "frame s h h"
  by (simp add: frame_def)

lemma frameD1: "frame s h h' \<Longrightarrow> length h \<le> length h'"
  by (simp add: frame_def)

lemma frameD2: "frame s h h' \<Longrightarrow> a < length h \<Longrightarrow> length (h' ! a) = length (h ! a)"
  by (simp add: frame_def)

lemma frameD3:
  "frame s h h' \<Longrightarrow> a < length h \<Longrightarrow> j < length (h ! a) \<Longrightarrow>
   \<not> (0 < cap s \<and> a = arr s \<and> off s \<le> j \<and> j < off s + cap s) \<Longrightarrow> h' ! a ! j = h ! a ! j"
  unfolding frame_def by blast

lemma frame_trans:
  assumes 1: "frame s h h1" and 2: "frame s h1 h2"
  shows "frame s h h2"
  unfolding frame_def
proof (intro conjI allI impI)
  show "length h \<le> length h2"
    using frameD1[OF 1] frameD1[OF 2] by simp
next
  fix a assume a: "a < length h"
  then have a1: "a < length h1" using frameD1[OF 1] by simp
  show "length (h2 ! a) = length (h ! a)"
    using frameD2[OF 1 a] frameD2[OF 2 a1] by simp
next
  fix a j assume a: "a < length h" and j: "j < length (h ! a)"
  then have a1: "a < length h1" using frameD1[OF 1] by simp
  have j1: "j < length (h1 ! a)" using frameD2[OF 1 a] j by simp
  show "(0 < cap s \<and> a = arr s \<and> off s \<le> j \<and> j < off s + cap s) \<or> h2 ! a ! j = h ! a ! j"
  proof (cases "0 < cap s \<and> a = arr s \<and> off s \<le> j \<and> j < off s + cap s")
    case True
    then show ?thesis by simp
  next
    case False
    from frameD3[OF 1 a j False] frameD3[OF 2 a1 j1 False] show ?thesis by simp
  qed
qed

lemma frame_len [simp]: "frame (s\<lparr>len := n\<rparr>) h h' = frame s h h'"
  by (simp add: frame_def)

lemma frame_put: "i < cap s \<Longrightarrow> frame s h (put h s i v)"
  by (auto simp: frame_def put_def heap_upd_nth nth_list_update)

lemma frame_alloc: "frame s h (h @ [a])"
  by (simp add: frame_def nth_append)

lemma frame_wf: "frame s h h' \<Longrightarrow> wf h t \<Longrightarrow> wf h' t"
  by (auto simp: frame_def wf_def)

lemma frame_elems:
  assumes "frame s h h'" and "wf h t" and "\<not> shares s t"
  shows "elems h' t = elems h t"
proof (cases "len t = 0")
  case True
  then show ?thesis by (simp add: elems_def)
next
  case False
  with assms(2) have t: "0 < cap t" "arr t < length h" "off t + cap t \<le> length (h ! arr t)"
    "len t \<le> cap t"
    by (auto simp: wf_def)
  with assms(1) have L: "length (h' ! arr t) = length (h ! arr t)"
    by (simp add: frame_def)
  have "take (len t) (drop (off t) (h' ! arr t)) = take (len t) (drop (off t) (h ! arr t))"
  proof (rule nth_equalityI)
    show "length (take (len t) (drop (off t) (h' ! arr t))) =
          length (take (len t) (drop (off t) (h ! arr t)))"
      using L by simp
  next
    fix i assume "i < length (take (len t) (drop (off t) (h' ! arr t)))"
    then have i: "i < len t" "off t + i < length (h ! arr t)" using L by auto
    with t assms(3) have "\<not> (0 < cap s \<and> arr t = arr s \<and> off s \<le> off t + i \<and> off t + i < off s + cap s)"
      by (auto simp: shares_def)
    with assms(1) t i have "h' ! arr t ! (off t + i) = h ! arr t ! (off t + i)"
      by (intro frameD3[of s h h']) auto
    with i L show "take (len t) (drop (off t) (h' ! arr t)) ! i =
          take (len t) (drop (off t) (h ! arr t)) ! i"
      by simp
  qed
  then show ?thesis by (simp add: elems_def)
qed

lemma shares_step:
  assumes "wf h t" and "\<not> shares s t"
    and "(arr s' = arr s \<and> off s' = off s \<and> cap s' = cap s) \<or> length h \<le> arr s'"
  shows "\<not> shares s' t"
  using assms by (auto simp: shares_def wf_def)

lemma Add_loop_frame:
  "wf h wk \<Longrightarrow> ins \<le> i \<Longrightarrow> i \<le> len wk \<Longrightarrow>
   (Add_loop h wk new i ins = Returned h' \<longrightarrow> frame wk h h') \<and>
   (Add_loop h wk new i ins = Finished h' m \<longrightarrow> frame wk h h' \<and> m \<le> len wk)"
proof (induction h wk new i ins rule: Add_loop.induct)
  case (1 h wk new i ins)
  show ?case
  proof (cases "i < len wk")
    case False
    with "1.prems" show ?thesis by (subst (1 2) Add_loop.simps) auto
  next
    case True
    let ?e = "get h wk i"
    show ?thesis
    proof (cases "SubsetOf ?e new")
      case True
      with \<open>i < len wk\<close> show ?thesis by (subst (1 2) Add_loop.simps) auto
    next
      case ne: False
      show ?thesis
      proof (cases "SubsetOf new ?e")
        case True
        have "Add_loop h wk new i ins = Add_loop h wk new (i + 1) ins"
          using \<open>i < len wk\<close> ne True by (subst Add_loop.simps) simp
        with "1.IH"(2)[OF \<open>i < len wk\<close> refl ne] True "1.prems" \<open>i < len wk\<close>
        show ?thesis by simp
      next
        case False
        let ?h1 = "if ins \<noteq> i then put h wk ins ?e else h"
        have step: "Add_loop h wk new i ins = Add_loop ?h1 wk new (i + 1) (ins + 1)"
          using \<open>i < len wk\<close> ne False by (subst Add_loop.simps) (simp add: Let_def)
        have "ins < cap wk" using "1.prems" \<open>i < len wk\<close> by (simp add: wf_def)
        then have f1: "frame wk h ?h1" by (simp add: frame_put)
        with "1.prems" have w1: "wf ?h1 wk" by (blast intro: frame_wf)
        from "1.IH"(1)[OF \<open>i < len wk\<close> refl ne] False w1 "1.prems" \<open>i < len wk\<close>
        have "(Add_loop ?h1 wk new (i + 1) (ins + 1) = Returned h' \<longrightarrow> frame wk ?h1 h') \<and>
              (Add_loop ?h1 wk new (i + 1) (ins + 1) = Finished h' m \<longrightarrow> frame wk ?h1 h' \<and> m \<le> len wk)"
          by simp
        with step f1 show ?thesis by (auto intro: frame_trans)
      qed
    qed
  qed
qed

lemma append1_frame:
  assumes "wf h s" and "append1 grow h s v = (h', s')"
  shows "frame s h h' \<and> wf h' s' \<and>
         ((arr s' = arr s \<and> off s' = off s \<and> cap s' = cap s) \<or> length h \<le> arr s')"
proof (cases "len s < cap s")
  case True
  with assms have h': "h' = put h s (len s) v" and s': "s' = s\<lparr>len := len s + 1\<rparr>"
    by (auto simp: append1_def)
  from True have f: "frame s h h'" by (simp add: h' frame_put)
  from f assms(1) have "wf h' s" by (rule frame_wf)
  with True have "wf h' s'" by (simp add: s' wf_def)
  with f show ?thesis by (simp add: s')
next
  case False
  with assms show ?thesis
    by (auto simp: append1_def Let_def frame_alloc wf_def elems_def)
qed

lemma Add_frame:
  assumes "wf h wk" and "Add grow h wk k = (h', wk')"
  shows "frame wk h h' \<and> wf h' wk' \<and>
         ((arr wk' = arr wk \<and> off wk' = off wk \<and> cap wk' = cap wk) \<or> length h \<le> arr wk')"
proof (cases "Add_loop h wk k 0 0")
  case (Returned h1)
  with assms(2) have "h' = h1" "wk' = wk" by (simp_all add: Add_def)
  moreover from Returned assms(1) have "frame wk h h1"
    using Add_loop_frame[where h=h and wk=wk and ins=0 and i=0 and new=k and h'=h1] by simp
  ultimately show ?thesis using assms(1) by (auto intro: frame_wf)
next
  case (Finished h1 m)
  with assms(1) have f: "frame wk h h1" and m: "m \<le> len wk"
    using Add_loop_frame[where h=h and wk=wk and ins=0 and i=0 and new=k and h'=h1 and m=m] by simp_all
  let ?s = "wk\<lparr>len := m\<rparr>"
  from f assms(1) have "wf h1 wk" by (rule frame_wf)
  with m have w: "wf h1 ?s" by (simp add: wf_def)
  from Finished assms(2) have "append1 grow h1 ?s k = (h', wk')" by (simp add: Add_def)
  from append1_frame[OF w this] have
    "frame wk h1 h'" "wf h' wk'"
    "(arr wk' = arr wk \<and> off wk' = off wk \<and> cap wk' = cap wk) \<or> length h1 \<le> arr wk'"
    by simp_all
  moreover from f have "length h \<le> length h1" by (simp add: frame_def)
  ultimately show ?thesis using f by (auto intro: frame_trans)
qed

lemma shares_sym: "shares s t = shares t s"
  by (auto simp: shares_def)

lemma frame_fresh:
  assumes 1: "frame z h0 h" and 2: "frame s h h'" and 3: "length h0 \<le> arr s"
  shows "frame z h0 h'"
  unfolding frame_def
proof (intro conjI allI impI)
  show "length h0 \<le> length h'"
    using frameD1[OF 1] frameD1[OF 2] by simp
next
  fix a assume a: "a < length h0"
  then have a1: "a < length h" using frameD1[OF 1] by simp
  show "length (h' ! a) = length (h0 ! a)"
    using frameD2[OF 1 a] frameD2[OF 2 a1] by simp
next
  fix a j assume a: "a < length h0" and j: "j < length (h0 ! a)"
  then have a1: "a < length h" using frameD1[OF 1] by simp
  have j1: "j < length (h ! a)" using frameD2[OF 1 a] j by simp
  from a 3 have "\<not> (0 < cap s \<and> a = arr s \<and> off s \<le> j \<and> j < off s + cap s)" by simp
  from frameD3[OF 2 a1 j1 this] have e: "h' ! a ! j = h ! a ! j" .
  show "(0 < cap z \<and> a = arr z \<and> off z \<le> j \<and> j < off z + cap z) \<or> h' ! a ! j = h0 ! a ! j"
  proof (cases "0 < cap z \<and> a = arr z \<and> off z \<le> j \<and> j < off z + cap z")
    case True
    then show ?thesis by simp
  next
    case False
    from frameD3[OF 1 a j False] e show ?thesis by simp
  qed
qed

lemma not_shares_nil [simp]: "\<not> shares nil_keys t"
  by (simp add: shares_def nil_keys_def)

lemma kept_elems: "frame nil_keys h0 h \<Longrightarrow> wf h0 t \<Longrightarrow> elems h t = elems h0 t"
  by (rule frame_elems[where s = nil_keys]) simp_all

lemma kept_get:
  assumes "frame nil_keys h0 h" and "wf h0 t" and "i < len t"
  shows "get h t i = get h0 t i"
proof -
  from assms(2,3) have "arr t < length h0" "off t + i < length (h0 ! arr t)"
    using wf_in_range by blast+
  from frameD3[OF assms(1) this] show ?thesis by (simp add: get_def nil_keys_def)
qed

lemma fresh_not_shares: "wf h t \<Longrightarrow> length h \<le> arr r \<Longrightarrow> \<not> shares r t"
  by (auto simp: shares_def wf_def)

lemma Copy_eq:
  assumes "wf h wk"
  shows "Copy h wk = (h @ [elems h wk], \<lparr>arr = length h, off = 0, len = len wk, cap = len wk\<rparr>)"
proof (cases "len wk = 0")
  case True
  then show ?thesis by (simp add: Copy_def make_def copy_slice_def elems_def)
next
  case False
  with assms have "arr wk < length h" by (auto simp: wf_def)
  then have "elems (h @ [replicate (len wk) {}]) wk = elems h wk"
    by (simp add: elems_def nth_append)
  with False assms show ?thesis
    by (simp add: Copy_def make_def copy_slice_def Let_def)
qed

lemma Adds_fresh:
  "wf h s \<Longrightarrow> length h0 \<le> arr s \<Longrightarrow> frame nil_keys h0 h \<Longrightarrow> Adds grow h s ks = (h', s') \<Longrightarrow>
   wf h' s' \<and> length h0 \<le> arr s' \<and> frame nil_keys h0 h'"
proof (induction ks arbitrary: h s)
  case Nil
  then show ?case by simp
next
  case (Cons k ks)
  obtain h1 s1 where A: "Add grow h s k = (h1, s1)" by (cases "Add grow h s k")
  from Add_frame[OF Cons.prems(1) A] have f: "frame s h h1" and w: "wf h1 s1"
    and r: "(arr s1 = arr s \<and> off s1 = off s \<and> cap s1 = cap s) \<or> length h \<le> arr s1"
    by simp_all
  from Cons.prems(3) have "length h0 \<le> length h" by (rule frameD1)
  with r Cons.prems(2) have a: "length h0 \<le> arr s1" by auto
  from frame_fresh[OF Cons.prems(3) f Cons.prems(2)] have k: "frame nil_keys h0 h1" .
  from Cons.prems(4) A have "Adds grow h1 s1 ks = (h', s')" by simp
  from Cons.IH[OF w a k this] show ?case .
qed

lemma Combine_loop_fresh:
  "wf h res \<Longrightarrow> length h0 \<le> arr res \<Longrightarrow> frame nil_keys h0 h \<Longrightarrow>
   Combine_loop grow h res other i = (h', r) \<Longrightarrow>
   wf h' r \<and> length h0 \<le> arr r \<and> frame nil_keys h0 h'"
proof (induction grow h res other i rule: Combine_loop.induct)
  case (1 grow h res other i)
  show ?case
  proof (cases "i < len other")
    case False
    with "1.prems" show ?thesis by (subst (asm) Combine_loop.simps) simp
  next
    case True
    obtain h1 s1 where A: "Add grow h res (get h other i) = (h1, s1)"
      by (cases "Add grow h res (get h other i)")
    from Add_frame[OF "1.prems"(1) A] have f: "frame res h h1" and w: "wf h1 s1"
      and r: "(arr s1 = arr res \<and> off s1 = off res \<and> cap s1 = cap res) \<or> length h \<le> arr s1"
      by simp_all
    from "1.prems"(3) have "length h0 \<le> length h" by (rule frameD1)
    with r "1.prems"(2) have a: "length h0 \<le> arr s1" by auto
    from frame_fresh[OF "1.prems"(3) f "1.prems"(2)] have k: "frame nil_keys h0 h1" .
    from "1.prems"(4) True A have "Combine_loop grow h1 s1 other (i + 1) = (h', r)"
      by (subst (asm) Combine_loop.simps) simp
    from "1.IH"[OF True refl A[symmetric] refl w a k this] show ?thesis .
  qed
qed

lemma Combine_loop_elems:
  "wf h res \<Longrightarrow> length h0 \<le> arr res \<Longrightarrow> frame nil_keys h0 h \<Longrightarrow> wf h0 other \<Longrightarrow>
   antichain (elems h res) \<Longrightarrow> i \<le> len other \<Longrightarrow>
   Combine_loop grow h res other i = (h', r) \<Longrightarrow>
   elems h' r = foldl add_spec (elems h res) (drop i (elems h0 other))"
proof (induction grow h res other i rule: Combine_loop.induct)
  case (1 grow h res other i)
  show ?case
  proof (cases "i < len other")
    case False
    with "1.prems" show ?thesis by (subst (asm) Combine_loop.simps) simp
  next
    case True
    let ?k = "get h other i"
    obtain h1 s1 where A: "Add grow h res ?k = (h1, s1)"
      by (cases "Add grow h res ?k")
    from Add_frame[OF "1.prems"(1) A] have f: "frame res h h1" and w: "wf h1 s1"
      and r: "(arr s1 = arr res \<and> off s1 = off res \<and> cap s1 = cap res) \<or> length h \<le> arr s1"
      by simp_all
    from "1.prems"(3) have "length h0 \<le> length h" by (rule frameD1)
    with r "1.prems"(2) have a: "length h0 \<le> arr s1" by auto
    from frame_fresh[OF "1.prems"(3) f "1.prems"(2)] have k: "frame nil_keys h0 h1" .
    from Add_elems_add_spec[OF "1.prems"(1) "1.prems"(5) A]
    have e: "elems h1 s1 = add_spec (elems h res) ?k" by simp
    then have an: "antichain (elems h1 s1)" using "1.prems"(5) by (simp add: antichain_add_spec)
    have g: "?k = elems h0 other ! i"
      using kept_get[OF "1.prems"(3) "1.prems"(4) True] "1.prems"(4) True by (simp add: elems_nth)
    from "1.prems"(7) True A have "Combine_loop grow h1 s1 other (i + 1) = (h', r)"
      by (subst (asm) Combine_loop.simps) simp
    from "1.IH"[OF True refl A[symmetric] refl w a k "1.prems"(4) an _ this] True
    have "elems h' r = foldl add_spec (elems h1 s1) (drop (i + 1) (elems h0 other))" by simp
    moreover have "drop i (elems h0 other) = elems h0 other ! i # drop (i + 1) (elems h0 other)"
      using True "1.prems"(4) by (simp add: Cons_nth_drop_Suc)
    ultimately show ?thesis using e g by simp
  qed
qed

section \<open>Minimal elements and Combine\<close>

lemma antichain_set:
  assumes "antichain xs" and "a \<in> set xs" and "b \<in> set xs" and "SubsetOf a b"
  shows "a = b"
proof -
  from assms(2,3) obtain i j where "i < length xs" "xs ! i = a" "j < length xs" "xs ! j = b"
    by (auto simp: in_set_conv_nth)
  with antichain_nth[OF assms(1), of i j] assms(4) show ?thesis by auto
qed

lemma minimal_antichain: "antichain xs \<Longrightarrow> minimal (set xs) = set xs"
  unfolding minimal_def using antichain_set by blast

lemma minimal_subset: "minimal U \<subseteq> U"
  by (auto simp: minimal_def)

lemma set_add_spec:
  assumes "antichain xs"
  shows "set (add_spec xs k) = minimal (insert k (set xs))"
proof (cases "\<exists>e \<in> set xs. SubsetOf e k")
  case True
  then obtain e where e: "e \<in> set xs" "SubsetOf e k" by blast
  have "minimal (insert k (set xs)) = set xs"
  proof (rule set_eqI, rule iffI)
    fix x assume x: "x \<in> minimal (insert k (set xs))"
    show "x \<in> set xs"
    proof (cases "x = k")
      case True
      with x e have "e = k" by (auto simp: minimal_def)
      with e True show ?thesis by simp
    next
      case False
      with x show ?thesis by (auto simp: minimal_def)
    qed
  next
    fix x assume x: "x \<in> set xs"
    have "y = x" if "y \<in> insert k (set xs)" "SubsetOf y x" for y
    proof (cases "y = k")
      case True
      with that e have ex: "SubsetOf e x" by (blast intro: SubsetOf_trans)
      have "e = x" by (rule antichain_set[OF assms e(1) x ex])
      with e that True show ?thesis by (auto simp: SubsetOf_def)
    next
      case False
      with that have "y \<in> set xs" by simp
      from antichain_set[OF assms this x that(2)] show ?thesis .
    qed
    with x show "x \<in> minimal (insert k (set xs))" by (auto simp: minimal_def)
  qed
  with True show ?thesis by (simp add: add_spec_def)
next
  case False
  then have k: "k \<notin> set xs" by (auto simp: SubsetOf_def)
  have "minimal (insert k (set xs)) = insert k {e \<in> set xs. \<not> SubsetOf k e}"
  proof (rule set_eqI, rule iffI)
    fix x assume x: "x \<in> minimal (insert k (set xs))"
    then show "x \<in> insert k {e \<in> set xs. \<not> SubsetOf k e}"
      by (auto simp: minimal_def)
  next
    fix x assume x: "x \<in> insert k {e \<in> set xs. \<not> SubsetOf k e}"
    show "x \<in> minimal (insert k (set xs))"
    proof (cases "x = k")
      case True
      with False show ?thesis by (auto simp: minimal_def)
    next
      case False
      with x have xs: "x \<in> set xs" "\<not> SubsetOf k x" by auto
      have "y = x" if "y \<in> insert k (set xs)" "SubsetOf y x" for y
      proof (cases "y = k")
        case True
        with that xs show ?thesis by simp
      next
        case False
        with that have "y \<in> set xs" by simp
        from antichain_set[OF assms this xs(1) that(2)] show ?thesis .
      qed
      with xs show ?thesis by (auto simp: minimal_def)
    qed
  qed
  with False show ?thesis by (auto simp: add_spec_def)
qed

lemma minimal_below:
  assumes "finite A" and "y \<in> A"
  shows "\<exists>z \<in> minimal A. SubsetOf z y"
proof -
  from finite_has_minimal2[OF assms] obtain m where "m \<in> A" "m \<subseteq> y" "\<forall>b \<in> A. b \<subseteq> m \<longrightarrow> m = b"
    by blast
  then have "m \<in> minimal A" "SubsetOf m y" by (auto simp: minimal_def SubsetOf_def)
  then show ?thesis by blast
qed

lemma minimal_absorb:
  assumes "finite A"
  shows "minimal (minimal A \<union> B) = minimal (A \<union> B)"
proof (rule set_eqI, rule iffI)
  fix x assume x: "x \<in> minimal (minimal A \<union> B)"
  then have xin: "x \<in> minimal A \<union> B" by (auto simp: minimal_def)
  have "y = x" if y: "y \<in> A \<union> B" "SubsetOf y x" for y
  proof (cases "y \<in> B")
    case True
    with x y show ?thesis by (auto simp: minimal_def)
  next
    case False
    with y have "y \<in> A" by simp
    from minimal_below[OF assms this] obtain z where z: "z \<in> minimal A" "SubsetOf z y" by blast
    with y have "SubsetOf z x" by (blast intro: SubsetOf_trans)
    with x z have "z = x" by (auto simp: minimal_def)
    with z y show ?thesis by (auto simp: SubsetOf_def)
  qed
  with xin show "x \<in> minimal (A \<union> B)" using minimal_subset[of A] by (auto simp: minimal_def)
next
  fix x assume x: "x \<in> minimal (A \<union> B)"
  then show "x \<in> minimal (minimal A \<union> B)"
    using minimal_subset[of A] by (auto simp: minimal_def)
qed

lemma foldl_add_spec:
  "antichain xs \<Longrightarrow>
   antichain (foldl add_spec xs ys) \<and> set (foldl add_spec xs ys) = minimal (set xs \<union> set ys)"
proof (induction ys arbitrary: xs)
  case Nil
  then show ?case by (simp add: minimal_antichain)
next
  case (Cons k ys)
  from Cons.prems have a: "antichain (add_spec xs k)" by (rule antichain_add_spec)
  from Cons.IH[OF a] have "antichain (foldl add_spec (add_spec xs k) ys)"
    and "set (foldl add_spec (add_spec xs k) ys) = minimal (set (add_spec xs k) \<union> set ys)"
    by simp_all
  moreover have "minimal (set (add_spec xs k) \<union> set ys) = minimal (insert k (set xs) \<union> set ys)"
    using set_add_spec[OF Cons.prems, of k] minimal_absorb[of "insert k (set xs)" "set ys"] by simp
  moreover have "insert k (set xs) \<union> set ys = set xs \<union> set (k # ys)" by auto
  ultimately show ?case by simp
qed

lemma elems_fresh:
  "length xs = n \<Longrightarrow> elems (h @ [xs @ ys]) \<lparr>arr = length h, off = 0, len = n, cap = c\<rparr> = xs"
  by (auto simp: elems_def)

lemma Combine_nonempty:
  assumes "wf h wk" and "0 < len wk" and "0 < len other"
  shows "Combine grow h wk other =
         Combine_loop grow (h @ [elems h wk @ replicate (len other) {}])
           \<lparr>arr = length h, off = 0, len = len wk, cap = len wk + len other\<rparr> other 0"
proof -
  from assms have "arr wk < length h" by (auto simp: wf_def)
  then have "elems (h @ [replicate (len wk + len other) {}]) wk = elems h wk"
    by (simp add: elems_def nth_append)
  with assms show ?thesis
    by (simp add: Combine_def make_def copy_slice_def Let_def)
qed

lemma Combine_fresh:
  assumes "wf h wk" and "0 < len wk" and "0 < len other" and "Combine grow h wk other = (h', r)"
  shows "wf h' r \<and> length h \<le> arr r \<and> frame nil_keys h h'"
proof -
  let ?h2 = "h @ [elems h wk @ replicate (len other) {}]"
  let ?res = "\<lparr>arr = length h, off = 0, len = len wk, cap = len wk + len other\<rparr>"
  from assms have L: "Combine_loop grow ?h2 ?res other 0 = (h', r)"
    by (simp add: Combine_nonempty)
  have "wf ?h2 ?res" using assms(1) by (simp add: wf_def)
  from Combine_loop_fresh[OF this _ _ L, of h] show ?thesis by (simp add: frame_alloc)
qed

lemma Combine_elems:
  assumes "wf h wk" and "wf h other" and "antichain (elems h wk)"
    and "0 < len wk" and "0 < len other" and "Combine grow h wk other = (h', r)"
  shows "elems h' r = foldl add_spec (elems h wk) (elems h other)"
proof -
  let ?h2 = "h @ [elems h wk @ replicate (len other) {}]"
  let ?res = "\<lparr>arr = length h, off = 0, len = len wk, cap = len wk + len other\<rparr>"
  from assms have L: "Combine_loop grow ?h2 ?res other 0 = (h', r)"
    by (simp add: Combine_nonempty)
  have w: "wf ?h2 ?res" using assms(1) by (simp add: wf_def)
  have e: "elems ?h2 ?res = elems h wk" using assms(1) by (simp add: elems_fresh)
  have "elems h' r = foldl add_spec (elems ?h2 ?res) (drop 0 (elems h other))"
    by (rule Combine_loop_elems[OF w _ _ assms(2) _ _ L])
       (simp_all add: frame_alloc e assms(3))
  with e show ?thesis by simp
qed

lemma Combine_antichain_minimal:
  assumes "wf h wk" and "wf h other" and "antichain (elems h wk)" and "antichain (elems h other)"
    and "Combine grow h wk other = (h', r)"
  shows "wf h' r \<and> antichain (elems h' r) \<and>
         set (elems h' r) = minimal (set (elems h wk) \<union> set (elems h other))"
proof (cases "len wk = 0")
  case True
  with assms(5) have "h' = h" "r = other" by (simp_all add: Combine_def)
  moreover from True have "elems h wk = []" by (simp add: elems_def)
  ultimately show ?thesis using assms(2,4) by (simp add: minimal_antichain)
next
  case False
  show ?thesis
  proof (cases "len other = 0")
    case True
    with False assms(5) have "h' = h" "r = wk" by (simp_all add: Combine_def)
    moreover from True have "elems h other = []" by (simp add: elems_def)
    ultimately show ?thesis using assms(1,3) by (simp add: minimal_antichain)
  next
    case oth: False
    from Combine_fresh[of h wk other grow h' r] assms False oth have "wf h' r" by simp
    moreover from Combine_elems[of h wk other grow h' r] assms False oth
    have "elems h' r = foldl add_spec (elems h wk) (elems h other)" by simp
    ultimately show ?thesis using foldl_add_spec[OF assms(3), of "elems h other"] by simp
  qed
qed

section \<open>The invariant, Copy and Combine\<close>

lemma Add_other_unchanged:
  assumes "wf h a" and "wf h b" and "\<not> shares a b"
  shows "elems (fst (Add grow h a k)) b = elems h b"
proof -
  obtain h1 a1 where A: "Add grow h a k = (h1, a1)" by (cases "Add grow h a k")
  from Add_frame[OF assms(1) A] have "frame a h h1" by simp
  from frame_elems[OF this assms(2,3)] A show ?thesis by simp
qed

lemma Add_keeps_apart:
  assumes "wf h a" and "wf h b" and "\<not> shares a b" and "Add grow h a k = (h1, a1)"
  shows "wf h1 a1 \<and> wf h1 b \<and> \<not> shares a1 b"
proof -
  from Add_frame[OF assms(1,4)] have f: "frame a h h1" and w: "wf h1 a1"
    and r: "(arr a1 = arr a \<and> off a1 = off a \<and> cap a1 = cap a) \<or> length h \<le> arr a1"
    by simp_all
  from frame_wf[OF f assms(2)] shares_step[OF assms(2,3) r] w show ?thesis by simp
qed

lemma interleave_apart:
  "wf h a \<Longrightarrow> wf h b \<Longrightarrow> \<not> shares a b \<Longrightarrow> interleave grow h a b ops = (h', a', b') \<Longrightarrow>
   wf h' a' \<and> wf h' b' \<and> \<not> shares a' b'"
proof (induction ops arbitrary: h a b)
  case Nil
  then show ?case by simp
next
  case (Cons op ops)
  obtain first k where op: "op = (first, k)" by (cases op)
  show ?case
  proof (cases first)
    case True
    obtain h1 a1 where A: "Add grow h a k = (h1, a1)" by (cases "Add grow h a k")
    from Add_keeps_apart[OF Cons.prems(1,2,3) A]
    have "wf h1 a1" "wf h1 b" "\<not> shares a1 b" by simp_all
    moreover from Cons.prems(4) op True A have "interleave grow h1 a1 b ops = (h', a', b')" by simp
    ultimately show ?thesis by (rule Cons.IH)
  next
    case False
    obtain h1 b1 where A: "Add grow h b k = (h1, b1)" by (cases "Add grow h b k")
    from Cons.prems(3) have "\<not> shares b a" by (simp add: shares_sym)
    from Add_keeps_apart[OF Cons.prems(2,1) this A]
    have "wf h1 a" "wf h1 b1" "\<not> shares a b1" by (simp_all add: shares_sym)
    moreover from Cons.prems(4) op False A have "interleave grow h1 a b1 ops = (h', a', b')" by simp
    ultimately show ?thesis by (rule Cons.IH)
  qed
qed





text \<open>
  C7. For antichains \<open>wk\<close> and \<open>other\<close>, the elements of Combine are exactly the minimal
  elements, under the subset relation, of the elements of both together. The witness
  runs the two examples of the spec: \<open>{1}\<close> with \<open>{2}\<close> gives both keys, \<open>{1,2}\<close>
  with \<open>{1}\<close> gives \<open>{1}\<close> alone.
\<close>

theorem Combine_minimal:
  assumes "wf h wk" and "wf h other"
    and "antichain (elems h wk)" and "antichain (elems h other)"
    and "Combine grow h wk other = (h', r)"
  shows "set (elems h' r) = minimal (set (elems h wk) \<union> set (elems h other))"
  using Combine_antichain_minimal[OF assms] by simp

theorem Combine_minimal_witness:
  "Combine ((*) 2) [[{1}], [{2}]] \<lparr>arr = 0, off = 0, len = 1, cap = 1\<rparr> \<lparr>arr = 1, off = 0, len = 1, cap = 1\<rparr>
     = ([[{1}], [{2}], [{1}, {2}]], \<lparr>arr = 2, off = 0, len = 2, cap = 2\<rparr>) \<and>
   minimal (set (elems [[{1}], [{2}]] \<lparr>arr = 0, off = 0, len = 1, cap = 1\<rparr>) \<union>
            set (elems [[{1}], [{2}]] \<lparr>arr = 1, off = 0, len = 1, cap = 1\<rparr>)) = {{1}, {2}} \<and>
   Combine ((*) 2) [[{1, 2}], [{1}]] \<lparr>arr = 0, off = 0, len = 1, cap = 1\<rparr> \<lparr>arr = 1, off = 0, len = 1, cap = 1\<rparr>
     = ([[{1, 2}], [{1}], [{1}, {}]], \<lparr>arr = 2, off = 0, len = 1, cap = 2\<rparr>) \<and>
   minimal (set (elems [[{1, 2}], [{1}]] \<lparr>arr = 0, off = 0, len = 1, cap = 1\<rparr>) \<union>
            set (elems [[{1, 2}], [{1}]] \<lparr>arr = 1, off = 0, len = 1, cap = 1\<rparr>)) = {{1}}"
proof -
  let ?a = "\<lparr>arr = 0, off = 0, len = 1, cap = 1\<rparr>"
  let ?b = "\<lparr>arr = 1, off = 0, len = 1, cap = 1\<rparr>"
  have c1: "Combine ((*) 2) [[{1}], [{2}]] ?a ?b
     = ([[{1}], [{2}], [{1}, {2}]], \<lparr>arr = 2, off = 0, len = 2, cap = 2\<rparr>)"
    by (simp add: Combine_def make_def copy_slice_def Combine_loop.simps Add_def Add_loop.simps
        get_def put_def append1_def elems_def SubsetOf_def Let_def)
  have c2: "Combine ((*) 2) [[{1, 2}], [{1}]] ?a ?b
     = ([[{1, 2}], [{1}], [{1}, {}]], \<lparr>arr = 2, off = 0, len = 1, cap = 2\<rparr>)"
    by (simp add: Combine_def make_def copy_slice_def Combine_loop.simps Add_def Add_loop.simps
        get_def put_def append1_def elems_def SubsetOf_def Let_def)
  have "set (elems [[{1}], [{2}], [{1}, {2}]] \<lparr>arr = 2, off = 0, len = 2, cap = 2\<rparr>) =
        minimal (set (elems [[{1}], [{2}]] ?a) \<union> set (elems [[{1}], [{2}]] ?b))"
    by (rule Combine_minimal[OF _ _ _ _ c1]) (simp_all add: wf_def elems_def SubsetOf_def)
  moreover have "set (elems [[{1, 2}], [{1}], [{1}, {}]] \<lparr>arr = 2, off = 0, len = 1, cap = 2\<rparr>) =
        minimal (set (elems [[{1, 2}], [{1}]] ?a) \<union> set (elems [[{1, 2}], [{1}]] ?b))"
    by (rule Combine_minimal[OF _ _ _ _ c2]) (simp_all add: wf_def elems_def SubsetOf_def)
  moreover have "set (elems [[{1}], [{2}], [{1}, {2}]] \<lparr>arr = 2, off = 0, len = 2, cap = 2\<rparr>) = {{1}, {2}}"
    "set (elems [[{1, 2}], [{1}], [{1}, {}]] \<lparr>arr = 2, off = 0, len = 1, cap = 2\<rparr>) = {{1}}"
    by (simp_all add: elems_def)
  ultimately show ?thesis using c1 c2 by simp
qed

text \<open>
  C8, as the code has it. Combine with an empty first argument returns the second
  argument itself, in the unchanged store. Combine with an empty second argument
  returns the first argument itself if that one is not empty; if both are empty, the
  first test of Combine decides and the result is the second argument, not the first.
  In every case the elements of the result are the elements of the non-empty side.
\<close>

theorem Combine_empty_side:
  "(len e = 0 \<longrightarrow> Combine grow h e X = (h, X)) \<and>
   (len e = 0 \<and> 0 < len X \<longrightarrow> Combine grow h X e = (h, X)) \<and>
   (len e = 0 \<and> len X = 0 \<longrightarrow> Combine grow h X e = (h, e)) \<and>
   (len e = 0 \<longrightarrow> elems (fst (Combine grow h X e)) (snd (Combine grow h X e)) = elems h X)"
  by (auto simp: Combine_def elems_def)

theorem Combine_empty_side_witness:
  "len nil_keys = 0 \<and> 0 < len \<lparr>arr = 0, off = 0, len = 1, cap = 1\<rparr> \<and>
   len \<lparr>arr = 0, off = 0, len = 0, cap = 1\<rparr> = 0 \<and>
   Combine ((*) 2) [[{1}]] nil_keys \<lparr>arr = 0, off = 0, len = 1, cap = 1\<rparr>
     = ([[{1}]], \<lparr>arr = 0, off = 0, len = 1, cap = 1\<rparr>) \<and>
   Combine ((*) 2) [[{1}]] \<lparr>arr = 0, off = 0, len = 1, cap = 1\<rparr> nil_keys
     = ([[{1}]], \<lparr>arr = 0, off = 0, len = 1, cap = 1\<rparr>) \<and>
   Combine ((*) 2) [[{1}]] \<lparr>arr = 0, off = 0, len = 0, cap = 1\<rparr> nil_keys = ([[{1}]], nil_keys)"
  using Combine_empty_side[of nil_keys "(*) 2" "[[{1}]]" "\<lparr>arr = 0, off = 0, len = 1, cap = 1\<rparr>"]
    Combine_empty_side[of nil_keys "(*) 2" "[[{1}]]" "\<lparr>arr = 0, off = 0, len = 0, cap = 1\<rparr>"]
  by (simp add: nil_keys_def)

text \<open>
  C8 as stated fails where both arguments are empty: the first argument here is an
  empty slice with room for one element, the second is nil, and Combine returns the
  second, not the first.
\<close>

theorem Combine_empty_side_counterexample:
  "wf [[{1}]] \<lparr>arr = 0, off = 0, len = 0, cap = 1\<rparr> \<and> wf [[{1}]] nil_keys \<and> len nil_keys = 0 \<and>
   Combine ((*) 2) [[{1}]] \<lparr>arr = 0, off = 0, len = 0, cap = 1\<rparr> nil_keys
     \<noteq> ([[{1}]], \<lparr>arr = 0, off = 0, len = 0, cap = 1\<rparr>)"
  by (simp add: Combine_def nil_keys_def wf_def)

text \<open>
  The two returns at the top of Combine hand out an argument itself. An Add on such a
  result writes into the array of the argument: here the first argument, \<open>[{1}, {2}]\<close>
  before, is left with the elements \<open>[{}, {2}]\<close>.
\<close>

lemma Combine_alias_example:
  "Combine ((*) 2) [[{1}, {2}]] \<lparr>arr = 0, off = 0, len = 2, cap = 2\<rparr> nil_keys
     = ([[{1}, {2}]], \<lparr>arr = 0, off = 0, len = 2, cap = 2\<rparr>) \<and>
   Add ((*) 2) [[{1}, {2}]] \<lparr>arr = 0, off = 0, len = 2, cap = 2\<rparr> {}
     = ([[{}, {2}]], \<lparr>arr = 0, off = 0, len = 1, cap = 2\<rparr>) \<and>
   elems [[{}, {2}]] \<lparr>arr = 0, off = 0, len = 2, cap = 2\<rparr> = [{}, {2}]"
  by (simp add: Combine_def nil_keys_def Add_def Add_loop.simps get_def put_def append1_def
      elems_def SubsetOf_def Let_def)

text \<open>
  C9. Copy returns a header on a new array that holds the elements of \<open>wk\<close> in their
  order; no header that existed before the call shares storage with it, \<open>wk\<close> least of
  all. From then on, whatever keys are added to the source and to the copy and in
  whatever order, one more Add on the copy leaves the elements of the source as they
  are, and one more Add on the source leaves the elements of the copy as they are.
\<close>

theorem Copy_independent:
  assumes "wf h wk" and "Copy h wk = (h1, c)"
    and "interleave grow h1 wk c ops = (h', wk', c')"
  shows "elems h1 c = elems h wk \<and> elems h1 wk = elems h wk \<and>
         arr c = length h \<and> length h1 = length h + 1 \<and>
         (\<forall>t. wf h t \<longrightarrow> \<not> shares c t) \<and> \<not> shares c wk \<and> \<not> shares c' wk' \<and>
         (\<forall>k. elems (fst (Add grow h' c' k)) wk' = elems h' wk') \<and>
         (\<forall>k. elems (fst (Add grow h' wk' k)) c' = elems h' c')"
proof -
  from assms(1,2) have h1: "h1 = h @ [elems h wk @ []]"
    and c: "c = \<lparr>arr = length h, off = 0, len = len wk, cap = len wk\<rparr>"
    by (simp_all add: Copy_eq)
  have ec: "elems h1 c = elems h wk"
    unfolding h1 c using assms(1) by (intro elems_fresh) simp
  have k: "frame nil_keys h h1" by (simp add: h1 frame_alloc)
  from kept_elems[OF k assms(1)] have ew: "elems h1 wk = elems h wk" .
  have fresh: "\<not> shares c t" if "wf h t" for t
    using that by (intro fresh_not_shares[of h]) (simp_all add: c)
  have w1: "wf h1 wk" using k assms(1) by (rule frame_wf)
  have "length (elems h wk) = len wk" using assms(1) by simp
  then have w2: "wf h1 c" by (simp add: h1 c wf_def)
  from fresh[OF assms(1)] have ap: "\<not> shares wk c" by (simp add: shares_sym)
  from interleave_apart[OF w1 w2 ap assms(3)]
  have i: "wf h' wk'" "wf h' c'" "\<not> shares wk' c'" by simp_all
  then have i': "\<not> shares c' wk'" by (simp add: shares_sym)
  have "elems (fst (Add grow h' c' k)) wk' = elems h' wk'" for k
    using i(2,1) i' by (rule Add_other_unchanged)
  moreover have "elems (fst (Add grow h' wk' k)) c' = elems h' c'" for k
    using i by (rule Add_other_unchanged)
  ultimately show ?thesis using ec ew fresh assms(1) i' by (simp add: c h1)
qed

theorem Copy_independent_witness:
  "wf [[{1}, {2}]] \<lparr>arr = 0, off = 0, len = 2, cap = 2\<rparr> \<and>
   Copy [[{1}, {2}]] \<lparr>arr = 0, off = 0, len = 2, cap = 2\<rparr>
     = ([[{1}, {2}], [{1}, {2}]], \<lparr>arr = 1, off = 0, len = 2, cap = 2\<rparr>) \<and>
   interleave ((*) 2) [[{1}, {2}], [{1}, {2}]] \<lparr>arr = 0, off = 0, len = 2, cap = 2\<rparr>
       \<lparr>arr = 1, off = 0, len = 2, cap = 2\<rparr> [(False, {}), (True, {2, 3})]
     = ([[{1}, {2}], [{}, {2}]], \<lparr>arr = 0, off = 0, len = 2, cap = 2\<rparr>, \<lparr>arr = 1, off = 0, len = 1, cap = 2\<rparr>) \<and>
   elems (fst (Add ((*) 2) [[{1}, {2}], [{}, {2}]] \<lparr>arr = 1, off = 0, len = 1, cap = 2\<rparr> {5}))
       \<lparr>arr = 0, off = 0, len = 2, cap = 2\<rparr> = [{1}, {2}] \<and>
   elems (fst (Add ((*) 2) [[{1}, {2}], [{}, {2}]] \<lparr>arr = 0, off = 0, len = 2, cap = 2\<rparr> {})) 
       \<lparr>arr = 1, off = 0, len = 1, cap = 2\<rparr> = [{}]"
proof -
  let ?wk = "\<lparr>arr = 0, off = 0, len = 2, cap = 2\<rparr>"
  let ?c = "\<lparr>arr = 1, off = 0, len = 2, cap = 2\<rparr>"
  let ?c' = "\<lparr>arr = 1, off = 0, len = 1, cap = 2\<rparr>"
  have w: "wf [[{1}, {2}]] ?wk" by (simp add: wf_def)
  have cp: "Copy [[{1}, {2}]] ?wk = ([[{1}, {2}], [{1}, {2}]], ?c)"
    by (simp add: Copy_def make_def copy_slice_def elems_def Let_def)
  have il: "interleave ((*) 2) [[{1}, {2}], [{1}, {2}]] ?wk ?c [(False, {}), (True, {2, 3})]
     = ([[{1}, {2}], [{}, {2}]], ?wk, ?c')"
    by (simp add: Add_def Add_loop.simps get_def put_def append1_def SubsetOf_def Let_def)
  from Copy_independent[OF w cp il]
  have "elems (fst (Add ((*) 2) [[{1}, {2}], [{}, {2}]] ?c' {5})) ?wk = elems [[{1}, {2}], [{}, {2}]] ?wk"
    and "elems (fst (Add ((*) 2) [[{1}, {2}], [{}, {2}]] ?wk {})) ?c' = elems [[{1}, {2}], [{}, {2}]] ?c'"
    by blast+
  then show ?thesis using w cp il by (simp add: elems_def)
qed

text \<open>
  C10. When both arguments of Combine are non-empty, the result is a header on an array
  that did not exist before the call: it shares storage with neither argument, nor with
  any other header the caller had. Combine itself leaves the elements of both arguments
  as they were, and so does every sequence of Add calls on the result. So a result that
  shares storage with an argument can only come from the two returns at the top of
  Combine, taken when a side is empty.
\<close>

theorem Combine_result_fresh:
  assumes "wf h wk" and "wf h other" and "0 < len wk" and "0 < len other"
    and "Combine grow h wk other = (h', r)" and "Adds grow h' r ks = (h'', r')"
  shows "length h \<le> arr r \<and> \<not> shares r wk \<and> \<not> shares r other \<and>
         (\<forall>t. wf h t \<longrightarrow> \<not> shares r t) \<and>
         elems h' wk = elems h wk \<and> elems h' other = elems h other \<and>
         elems h'' wk = elems h wk \<and> elems h'' other = elems h other \<and>
         \<not> shares r' wk \<and> \<not> shares r' other"
proof -
  from Combine_fresh[OF assms(1,3,4,5)]
  have w: "wf h' r" and a: "length h \<le> arr r" and k: "frame nil_keys h h'" by simp_all
  from Adds_fresh[OF w a k assms(6)]
  have a': "length h \<le> arr r'" and k': "frame nil_keys h h''" by simp_all
  have "\<not> shares r t" if "wf h t" for t using that a by (rule fresh_not_shares)
  moreover have "\<not> shares r' wk" "\<not> shares r' other"
    using assms(1,2) a' by (simp_all add: fresh_not_shares)
  moreover note kept_elems[OF k assms(1)] kept_elems[OF k assms(2)]
    kept_elems[OF k' assms(1)] kept_elems[OF k' assms(2)]
  ultimately show ?thesis using a assms(1,2) by simp
qed

theorem Combine_result_fresh_witness:
  "wf [[{1, 2}], [{1}]] \<lparr>arr = 0, off = 0, len = 1, cap = 1\<rparr> \<and>
   wf [[{1, 2}], [{1}]] \<lparr>arr = 1, off = 0, len = 1, cap = 1\<rparr> \<and>
   Combine ((*) 2) [[{1, 2}], [{1}]] \<lparr>arr = 0, off = 0, len = 1, cap = 1\<rparr> \<lparr>arr = 1, off = 0, len = 1, cap = 1\<rparr>
     = ([[{1, 2}], [{1}], [{1}, {}]], \<lparr>arr = 2, off = 0, len = 1, cap = 2\<rparr>) \<and>
   Adds ((*) 2) [[{1, 2}], [{1}], [{1}, {}]] \<lparr>arr = 2, off = 0, len = 1, cap = 2\<rparr> [{}, {7}]
     = ([[{1, 2}], [{1}], [{}, {}]], \<lparr>arr = 2, off = 0, len = 1, cap = 2\<rparr>) \<and>
   elems [[{1, 2}], [{1}], [{}, {}]] \<lparr>arr = 0, off = 0, len = 1, cap = 1\<rparr> = [{1, 2}] \<and>
   elems [[{1, 2}], [{1}], [{}, {}]] \<lparr>arr = 1, off = 0, len = 1, cap = 1\<rparr> = [{1}] \<and>
   \<not> shares \<lparr>arr = 2, off = 0, len = 1, cap = 2\<rparr> \<lparr>arr = 0, off = 0, len = 1, cap = 1\<rparr>"
proof -
  let ?a = "\<lparr>arr = 0, off = 0, len = 1, cap = 1\<rparr>"
  let ?b = "\<lparr>arr = 1, off = 0, len = 1, cap = 1\<rparr>"
  let ?r = "\<lparr>arr = 2, off = 0, len = 1, cap = 2\<rparr>"
  have w: "wf [[{1, 2}], [{1}]] ?a" "wf [[{1, 2}], [{1}]] ?b" by (simp_all add: wf_def)
  have l: "0 < len ?a" "0 < len ?b" by simp_all
  have c: "Combine ((*) 2) [[{1, 2}], [{1}]] ?a ?b = ([[{1, 2}], [{1}], [{1}, {}]], ?r)"
    by (simp add: Combine_def make_def copy_slice_def Combine_loop.simps Add_def Add_loop.simps
        get_def put_def append1_def elems_def SubsetOf_def Let_def)
  have ad: "Adds ((*) 2) [[{1, 2}], [{1}], [{1}, {}]] ?r [{}, {7}] = ([[{1, 2}], [{1}], [{}, {}]], ?r)"
    by (simp add: Add_def Add_loop.simps get_def put_def append1_def SubsetOf_def Let_def)
  from Combine_result_fresh[OF w l c ad] w c ad show ?thesis by (simp add: elems_def)
qed

end
